theory Spec2Isabelle
  imports Complex_Main "HOL-Library.Word" "HOL-Library.AList" "HOL-Library.Sublist"
begin

unbundle bit_operations_syntax

section \<open>Data model\<close>

text \<open>
  Bytes are 8-bit words. A posting is a pair \<open>(doc_id, tf)\<close> of Python integers.
  A segment file written by \<open>MultiFileWriter\<close> is called
  \<^verbatim>\<open>{name}_{i:03}.bin\<close>; the file name is kept as the pair \<open>(name, i)\<close>
  that determines it. A location is a file name with a byte offset.
\<close>

type_synonym byte = "8 word"
type_synonym posting = "int \<times> int"
type_synonym fname = "string \<times> nat"
type_synonym loc = "fname \<times> nat"

text \<open>A directory of binary files (a local directory or the blobs under a prefix).\<close>

type_synonym dir = "fname \<rightharpoonup> byte list"

text \<open>
  Python dictionaries (\<open>dict\<close>, \<open>Counter\<close>, \<open>defaultdict\<close>) keep insertion
  order and hold every key once: an association list in which assignment replaces the
  value of a present key in place and appends an absent key at the end.
\<close>

type_synonym ('k, 'v) dict = "('k \<times> 'v) list"

definition dict_get :: "('k, 'v) dict \<Rightarrow> 'k \<Rightarrow> 'v \<Rightarrow> 'v" where
  "dict_get d k dflt = (case map_of d k of None \<Rightarrow> dflt | Some v \<Rightarrow> v)"

definition dict_set :: "'k \<Rightarrow> 'v \<Rightarrow> ('k, 'v) dict \<Rightarrow> ('k, 'v) dict" where
  "dict_set k v d = AList.update k v d"

definition dict_mem :: "'k \<Rightarrow> ('k, 'v) dict \<Rightarrow> bool" where
  "dict_mem k d = (map_of d k \<noteq> None)"

definition dict_keys :: "('k, 'v) dict \<Rightarrow> 'k list" where
  "dict_keys d = map fst d"

text \<open>\<open>d.update(other)\<close>: assigns every item of \<open>other\<close>, in its order.\<close>

definition dict_update :: "('k, 'v) dict \<Rightarrow> ('k, 'v) dict \<Rightarrow> ('k, 'v) dict" where
  "dict_update d other = foldl (\<lambda>acc (k, v). dict_set k v acc) d other"

datatype py_error =
    OverflowError
  | FileNotFoundError
  | ValueError
  | ZeroDivisionError
  | AttributeError
  | Hangs

section \<open>Segmented block store\<close>

definition BLOCK_SIZE :: nat where
  "BLOCK_SIZE = 1999998"

subsection \<open>MultiFileWriter\<close>

text \<open>
  The writer holds the base name, the contents of the files it has closed (file \<open>i\<close>
  of the series at index \<open>i\<close>) and the contents of the open file \<open>_f\<close>, whose
  sequence number is the number of closed files. \<open>_f.tell()\<close> is the length of the
  open file.
\<close>

record writer =
  wname :: string
  closed_files :: "byte list list"
  cur :: "byte list"

definition new_writer :: "string \<Rightarrow> writer" where
  "new_writer name = \<lparr>wname = name, closed_files = [], cur = []\<rparr>"

definition cur_name :: "writer \<Rightarrow> fname" where
  "cur_name w = (wname w, length (closed_files w))"

text \<open>\<open>self._f.close(); self._f = next(self._file_gen)\<close>\<close>

definition next_file :: "writer \<Rightarrow> writer" where
  "next_file w = w\<lparr>closed_files := closed_files w @ [cur w], cur := []\<rparr>"

text \<open>
  The loop of \<open>write\<close>. With \<open>pos \<le> BLOCK_SIZE\<close> the slices \<open>b[:remaining]\<close>
  and \<open>b[remaining:]\<close> are \<open>take\<close> and \<open>drop\<close>. With \<open>pos > BLOCK_SIZE\<close>
  (which no sequence of writes reaches) \<open>remaining\<close> is negative, the slice
  \<open>b[remaining:]\<close> keeps the last bytes of a non-empty \<open>b\<close> for ever and the loop
  does not return: \<open>None\<close>.
\<close>

function write_loop :: "writer \<Rightarrow> byte list \<Rightarrow> loc list \<Rightarrow> (writer \<times> loc list) option" where
  "write_loop w b locs =
     (if length b > 0 then
        (let pos = length (cur w) in
         if BLOCK_SIZE < pos then None
         else
           let remaining = BLOCK_SIZE - pos;
               w1 = (if remaining = 0 then next_file w else w);
               pos1 = (if remaining = 0 then 0 else pos);
               remaining1 = (if remaining = 0 then BLOCK_SIZE else remaining);
               w2 = w1\<lparr>cur := cur w1 @ take remaining1 b\<rparr>
           in write_loop w2 (drop remaining1 b) (locs @ [(cur_name w2, pos1)]))
      else Some (w, locs))"
  by pat_completeness auto
termination
  by (relation "measure (\<lambda>(w, b, locs). length b)") (auto simp: BLOCK_SIZE_def)

declare write_loop.simps [simp del]

definition writer_write :: "writer \<Rightarrow> byte list \<Rightarrow> (writer \<times> loc list) option" where
  "writer_write w b = write_loop w b []"

text \<open>\<open>close\<close>: the files of the series, in sequence order.\<close>

definition writer_close :: "writer \<Rightarrow> byte list list" where
  "writer_close w = closed_files w @ [cur w]"

text \<open>The directory after the files of a series have been written into it.\<close>

definition install :: "string \<Rightarrow> byte list list \<Rightarrow> dir \<Rightarrow> dir" where
  "install name fs d =
     (\<lambda>(n, i). if n = name \<and> i < length fs then Some (fs ! i) else d (n, i))"

text \<open>
  The files of a series only grow: \<open>files_ext fs fs'\<close> says that \<open>fs'\<close> has every
  file of \<open>fs\<close>, each with its old contents as a prefix. \<open>dir_holds d name fs\<close>
  says that the directory \<open>d\<close> has every file of the series \<open>name\<close>, with at least
  the contents \<open>fs\<close>.
\<close>

definition files_ext :: "byte list list \<Rightarrow> byte list list \<Rightarrow> bool" where
  "files_ext fs fs' = (length fs \<le> length fs' \<and> list_all2 prefix fs (take (length fs) fs'))"

definition dir_holds :: "dir \<Rightarrow> string \<Rightarrow> byte list list \<Rightarrow> bool" where
  "dir_holds d name fs =
     list_all (\<lambda>i. case d (name, i) of None \<Rightarrow> False | Some c \<Rightarrow> prefix (fs ! i) c)
       [0..<length fs]"

subsection \<open>MultiFileReader\<close>

text \<open>
  \<open>read\<close> opens each named file (a missing file raises), seeks to the offset and reads
  \<open>min(n_bytes, BLOCK_SIZE - offset)\<close> bytes, fewer at the end of the file. A
  negative count arises only from an offset above \<open>BLOCK_SIZE\<close> or a negative
  \<open>n_bytes\<close>; what the two back ends do with it differs, and it is kept as an error.
\<close>

fun reader_read :: "dir \<Rightarrow> loc list \<Rightarrow> int \<Rightarrow> py_error + byte list" where
  "reader_read d [] n_bytes = Inr []"
| "reader_read d ((f_name, offset) # locs) n_bytes =
     (case d f_name of
        None \<Rightarrow> Inl FileNotFoundError
      | Some content \<Rightarrow>
          (let n_read = min n_bytes (int BLOCK_SIZE - int offset) in
           if n_read < 0 then Inl ValueError
           else
             (case reader_read d locs (n_bytes - n_read) of
                Inl e \<Rightarrow> Inl e
              | Inr rest \<Rightarrow> Inr (take (nat n_read) (drop offset content) @ rest))))"

section \<open>Posting codec\<close>

definition TUPLE_SIZE :: nat where
  "TUPLE_SIZE = 6"

definition TF_MASK :: int where
  "TF_MASK = 2 ^ 16 - 1"

text \<open>\<open>int.to_bytes(length, 'big')\<close> of an unsigned value, and \<open>int.from_bytes(b, 'big')\<close>.\<close>

fun to_bytes_be :: "nat \<Rightarrow> int \<Rightarrow> byte list" where
  "to_bytes_be 0 v = []"
| "to_bytes_be (Suc n) v = to_bytes_be n (v div 256) @ [word_of_int v]"

definition to_bytes :: "int \<Rightarrow> nat \<Rightarrow> py_error + byte list" where
  "to_bytes v n = (if 0 \<le> v \<and> v < 256 ^ n then Inr (to_bytes_be n v) else Inl OverflowError)"

definition from_bytes :: "byte list \<Rightarrow> int" where
  "from_bytes bs = foldl (\<lambda>a b. a * 256 + uint b) 0 bs"

text \<open>\<open>(doc_id << 16 | (tf & TF_MASK)).to_bytes(TUPLE_SIZE, 'big')\<close>\<close>

definition encode_posting :: "posting \<Rightarrow> py_error + byte list" where
  "encode_posting p =
     (case p of (doc_id, tf) \<Rightarrow> to_bytes (push_bit 16 doc_id OR (tf AND TF_MASK)) TUPLE_SIZE)"

text \<open>The joined list comprehension: the first posting that cannot be encoded raises.\<close>

fun encode_postings :: "posting list \<Rightarrow> py_error + byte list" where
  "encode_postings [] = Inr []"
| "encode_postings (p # pl) =
     (case encode_posting p of
        Inl e \<Rightarrow> Inl e
      | Inr bs \<Rightarrow> (case encode_postings pl of Inl e \<Rightarrow> Inl e | Inr rest \<Rightarrow> Inr (bs @ rest)))"

text \<open>The Python slice \<open>b[i:j]\<close> for \<open>0 \<le> i \<le> j\<close>.\<close>

definition slice :: "'a list \<Rightarrow> nat \<Rightarrow> nat \<Rightarrow> 'a list" where
  "slice b i j = take (j - i) (drop i b)"

text \<open>The body of the decoding loop, for record \<open>i\<close> of the buffer \<open>b\<close>.\<close>

definition decode_posting :: "byte list \<Rightarrow> nat \<Rightarrow> posting" where
  "decode_posting b i =
     (from_bytes (slice b (i * TUPLE_SIZE) (i * TUPLE_SIZE + 4)),
      from_bytes (slice b (i * TUPLE_SIZE + 4) ((i + 1) * TUPLE_SIZE)))"

definition decode_postings :: "byte list \<Rightarrow> int \<Rightarrow> posting list" where
  "decode_postings b n = map (decode_posting b) [0..<nat n]"

section \<open>InvertedIndex\<close>

record index =
  df :: "(string, int) dict"
  term_total :: "(string, int) dict"
  posting_list :: "(string, posting list) dict"
  posting_locs :: "(string, loc list) dict"

definition empty_index :: index where
  "empty_index = \<lparr>df = [], term_total = [], posting_list = [], posting_locs = []\<rparr>"

text \<open>\<open>Counter(tokens)\<close> and \<open>Counter.update(mapping)\<close>.\<close>

definition counter_of :: "'k list \<Rightarrow> ('k, int) dict" where
  "counter_of tokens = foldl (\<lambda>c t. dict_set t (dict_get c t 0 + 1) c) [] tokens"

definition counter_update :: "('k, int) dict \<Rightarrow> ('k, int) dict \<Rightarrow> ('k, int) dict" where
  "counter_update c other = foldl (\<lambda>acc (k, n). dict_set k (n + dict_get acc k 0) acc) c other"

definition add_doc_step :: "int \<Rightarrow> 'a index_scheme \<Rightarrow> string \<times> int \<Rightarrow> 'a index_scheme" where
  "add_doc_step doc_id ix wc =
     (case wc of (w, cnt) \<Rightarrow>
        ix\<lparr>df := dict_set w (dict_get (df ix) w 0 + 1) (df ix),
           posting_list := dict_set w (dict_get (posting_list ix) w [] @ [(doc_id, cnt)])
                             (posting_list ix)\<rparr>)"

definition add_doc :: "'a index_scheme \<Rightarrow> int \<Rightarrow> string list \<Rightarrow> 'a index_scheme" where
  "add_doc ix doc_id tokens =
     (let w2cnt = counter_of tokens;
          ix1 = ix\<lparr>term_total := counter_update (term_total ix) w2cnt\<rparr>
      in foldl (add_doc_step doc_id) ix1 w2cnt)"

text \<open>\<open>InvertedIndex(docs)\<close>: \<open>docs\<close> is a dictionary from document id to tokens.\<close>

definition InvertedIndex :: "(int, string list) dict \<Rightarrow> index" where
  "InvertedIndex docs = foldl (\<lambda>ix (doc_id, tokens). add_doc ix doc_id tokens) empty_index docs"

text \<open>
  \<open>read_a_posting_list\<close>: \<open>self.df[w]\<close> is a \<open>Counter\<close> lookup (0 for an absent
  key), the locations are those recorded for \<open>w\<close>.
\<close>

definition read_a_posting_list :: "'a index_scheme \<Rightarrow> dir \<Rightarrow> string \<Rightarrow> py_error + posting list" where
  "read_a_posting_list ix d w =
     (if \<not> dict_mem w (posting_locs ix) then Inr []
      else
        (let locs = dict_get (posting_locs ix) w [];
             n = dict_get (df ix) w 0
         in case reader_read d locs (n * int TUPLE_SIZE) of
              Inl e \<Rightarrow> Inl e
            | Inr b \<Rightarrow> Inr (decode_postings b n)))"

text \<open>
  The loop of \<open>write_a_posting_list\<close> over \<open>list_w_pl\<close>, on the writer and the
  \<open>defaultdict(list)\<close> of locations.
\<close>

fun write_postings ::
  "writer \<Rightarrow> (string, loc list) dict \<Rightarrow> (string \<times> posting list) list \<Rightarrow>
     py_error + (writer \<times> (string, loc list) dict)" where
  "write_postings wr pls [] = Inr (wr, pls)"
| "write_postings wr pls ((w, pl) # rest) =
     (case encode_postings pl of
        Inl e \<Rightarrow> Inl e
      | Inr b \<Rightarrow>
          (case writer_write wr b of
             None \<Rightarrow> Inl Hangs
           | Some (wr', locs) \<Rightarrow>
               write_postings wr' (dict_set w (dict_get pls w [] @ locs) pls) rest))"

text \<open>
  \<open>write_a_posting_list\<close> returns the bucket id; its effects are the segment files
  of the series and the pickled dictionary of locations, which the model returns.
\<close>

definition write_a_posting_list ::
  "string \<times> (string \<times> posting list) list \<Rightarrow> py_error + (byte list list \<times> (string, loc list) dict)" where
  "write_a_posting_list b_w_pl =
     (case b_w_pl of (bucket_id, list_w_pl) \<Rightarrow>
        (case write_postings (new_writer bucket_id) [] list_w_pl of
           Inl e \<Rightarrow> Inl e
         | Inr (wr, pls) \<Rightarrow> Inr (writer_close wr, pls)))"

section \<open>The posting codec\<close>

lemma length_to_bytes_be [simp]: "length (to_bytes_be n v) = n"
  by (induction n arbitrary: v) auto

lemma from_bytes_snoc: "from_bytes (bs @ [b]) = from_bytes bs * 256 + uint b"
  by (simp add: from_bytes_def)

lemma from_bytes_to_bytes_be: "from_bytes (to_bytes_be n v) = v mod 256 ^ n"
proof (induction n arbitrary: v)
  case 0
  then show ?case by (simp add: from_bytes_def)
next
  case (Suc n)
  have "from_bytes (to_bytes_be (Suc n) v) = 256 * ((v div 256) mod 256 ^ n) + v mod 256"
    by (simp add: from_bytes_snoc Suc uint_word_of_int)
  also have "\<dots> = v mod (256 * 256 ^ n)"
    by (simp add: zmod_zmult2_eq)
  finally show ?case by simp
qed

lemma to_bytes_be_6_split:
  "to_bytes_be 6 v = to_bytes_be 4 (v div 65536) @ to_bytes_be 2 v"
proof -
  have h: "v div 256 div 256 = v div 65536"
    by (simp add: div_mult2_eq [symmetric])
  show ?thesis
    by (simp add: eval_nat_numeral h)
qed

lemma pack_eq: "push_bit 16 d OR (tf AND TF_MASK) = d * 65536 + tf mod 65536" for d tf :: int
proof -
  have m: "TF_MASK = mask 16" by (simp add: TF_MASK_def mask_eq_exp_minus_1)
  have "push_bit 16 d OR take_bit 16 tf = push_bit 16 d + take_bit 16 tf"
    by (rule disjunctive_add [symmetric]) (auto simp: bit_simps)
  then show ?thesis
    by (simp add: m take_bit_eq_mask [symmetric] push_bit_eq_mult take_bit_eq_mod)
qed

lemma to_bytes_be_cong:
  "v mod 256 ^ n = v' mod 256 ^ n \<Longrightarrow> to_bytes_be n v = to_bytes_be n v'"
proof (induction n arbitrary: v v')
  case 0
  then show ?case by simp
next
  case (Suc n)
  have e: "256 * (v div 256 mod 256 ^ n) + v mod 256 = 256 * (v' div 256 mod 256 ^ n) + v' mod 256"
    using Suc.prems by (simp add: zmod_zmult2_eq)
  have a: "v mod 256 = v' mod 256"
  proof -
    have "(256 * (v div 256 mod 256 ^ n) + v mod 256) mod 256 = v mod 256" by simp
    moreover have "(256 * (v' div 256 mod 256 ^ n) + v' mod 256) mod 256 = v' mod 256" by simp
    ultimately show ?thesis using e by simp
  qed
  have b: "v div 256 mod 256 ^ n = v' div 256 mod 256 ^ n"
    using e a by simp
  have w: "(word_of_int v :: byte) = word_of_int v'"
    using a by (simp add: word_of_int_eq_iff take_bit_eq_mod)
  show ?case using Suc.IH [OF b] w by simp
qed

lemma TF_MASK_and: "tf AND TF_MASK = tf mod 65536"
proof -
  have m: "TF_MASK = mask 16" by (simp add: TF_MASK_def mask_eq_exp_minus_1)
  show ?thesis by (simp add: m take_bit_eq_mask [symmetric] take_bit_eq_mod)
qed

lemma encode_posting_ok:
  assumes "0 \<le> d" "d < 2 ^ 32"
  shows "encode_posting (d, tf) = Inr (to_bytes_be 4 d @ to_bytes_be 2 (tf AND TF_MASK))"
proof -
  let ?v = "d * 65536 + tf mod 65536"
  have t: "0 \<le> tf mod 65536" "tf mod 65536 < 65536" by simp_all
  have lo: "0 \<le> ?v" using assms t by simp
  have hi: "?v < 256 ^ 6" using assms t by simp
  have dv: "?v div 65536 = d" using t by simp
  have "to_bytes_be 2 ?v = to_bytes_be 2 (tf AND TF_MASK)"
    by (rule to_bytes_be_cong) (simp add: TF_MASK_and)
  then have "to_bytes_be 6 ?v = to_bytes_be 4 d @ to_bytes_be 2 (tf AND TF_MASK)"
    using dv by (simp only: to_bytes_be_6_split)
  then show ?thesis
    using lo hi by (simp add: encode_posting_def to_bytes_def pack_eq TUPLE_SIZE_def)
qed

lemma decode_posting_0:
  "decode_posting (to_bytes_be 4 d @ to_bytes_be 2 t @ rest) 0 = (d mod 2 ^ 32, t mod 2 ^ 16)"
  by (simp add: decode_posting_def slice_def TUPLE_SIZE_def from_bytes_to_bytes_be)

text \<open>
  Claim C7. For a posting \<open>(doc_id, tf)\<close> with \<open>0 \<le> doc_id < 2^32\<close> the encoding is six
  bytes: bytes 0-3 are the big-endian unsigned 32-bit document id, bytes 4-5 are
  \<open>tf\<close> masked to its low 16 bits. Encoding never raises on account of \<open>tf\<close>, and
  decoding yields \<open>(doc_id, tf mod 2^16)\<close>: a term frequency of 65536 or more loses
  its high bits.
\<close>

theorem posting_codec_masks_tf:
  assumes "0 \<le> doc_id" and "doc_id < 2 ^ 32"
  shows "\<exists>b. encode_posting (doc_id, tf) = Inr b \<and> length b = 6
           \<and> take 4 b = to_bytes_be 4 doc_id
           \<and> drop 4 b = to_bytes_be 2 (tf AND TF_MASK)
           \<and> from_bytes (take 4 b) = doc_id
           \<and> from_bytes (drop 4 b) = tf mod 2 ^ 16
           \<and> decode_postings b 1 = [(doc_id, tf mod 2 ^ 16)]"
proof -
  let ?b = "to_bytes_be 4 doc_id @ to_bytes_be 2 (tf AND TF_MASK)"
  have e: "encode_posting (doc_id, tf) = Inr ?b"
    by (rule encode_posting_ok [OF assms])
  have d: "doc_id mod 2 ^ 32 = doc_id" using assms by simp
  have t: "(tf AND TF_MASK) mod 2 ^ 16 = tf mod 2 ^ 16" by (simp add: TF_MASK_and)
  have 1: "from_bytes (take 4 ?b) = doc_id"
    using d by (simp add: from_bytes_to_bytes_be)
  have 2: "from_bytes (drop 4 ?b) = tf mod 2 ^ 16"
    using t by (simp add: from_bytes_to_bytes_be)
  have "decode_posting (to_bytes_be 4 doc_id @ to_bytes_be 2 (tf AND TF_MASK) @ []) 0
          = (doc_id mod 2 ^ 32, (tf AND TF_MASK) mod 2 ^ 16)"
    by (rule decode_posting_0)
  then have 3: "decode_postings ?b 1 = [(doc_id, tf mod 2 ^ 16)]"
    using d t by (simp add: decode_postings_def)
  show ?thesis
    using e 1 2 3 by simp
qed

theorem posting_codec_masks_tf_witness:
  "(0::int) \<le> 5 \<and> (5::int) < 2 ^ 32
   \<and> (\<exists>b. encode_posting (5, 70000) = Inr b \<and> length b = 6
          \<and> from_bytes (take 4 b) = 5 \<and> from_bytes (drop 4 b) = 4464
          \<and> decode_postings b 1 = [(5, 4464)])"
proof -
  have h1: "(0::int) \<le> 5" by simp
  have h2: "(5::int) < 2 ^ 32" by simp
  from posting_codec_masks_tf [OF h1 h2, of 70000] show ?thesis by auto
qed

section \<open>The writer loop\<close>

lemma BLOCK_SIZE_pos: "0 < BLOCK_SIZE" by (simp add: BLOCK_SIZE_def)

lemma write_loop_empty: "write_loop w [] locs = Some (w, locs)"
  by (subst write_loop.simps) simp

lemma write_loop_room:
  assumes "b \<noteq> []" "length (cur w) < BLOCK_SIZE"
  shows "write_loop w b locs =
     write_loop (w\<lparr>cur := cur w @ take (BLOCK_SIZE - length (cur w)) b\<rparr>)
       (drop (BLOCK_SIZE - length (cur w)) b) (locs @ [(cur_name w, length (cur w))])"
  using assms by (subst write_loop.simps) (simp add: Let_def cur_name_def)

lemma write_loop_full:
  assumes "b \<noteq> []" "length (cur w) = BLOCK_SIZE"
  shows "write_loop w b locs =
     write_loop (w\<lparr>closed_files := closed_files w @ [cur w], cur := take BLOCK_SIZE b\<rparr>)
       (drop BLOCK_SIZE b) (locs @ [((wname w, Suc (length (closed_files w))), 0)])"
  using assms by (subst write_loop.simps) (simp add: Let_def cur_name_def next_file_def)

lemma write_loop_cases [consumes 1, case_names empty room full]:
  assumes inv: "length (cur w) \<le> BLOCK_SIZE"
    and empty: "\<And>w locs. length (cur w) \<le> BLOCK_SIZE \<Longrightarrow> P w [] locs"
    and room: "\<And>w b locs. b \<noteq> [] \<Longrightarrow> length (cur w) < BLOCK_SIZE \<Longrightarrow>
        P (w\<lparr>cur := cur w @ take (BLOCK_SIZE - length (cur w)) b\<rparr>)
          (drop (BLOCK_SIZE - length (cur w)) b) (locs @ [(cur_name w, length (cur w))]) \<Longrightarrow>
        P w b locs"
    and full: "\<And>w b locs. b \<noteq> [] \<Longrightarrow> length (cur w) = BLOCK_SIZE \<Longrightarrow>
        P (w\<lparr>closed_files := closed_files w @ [cur w], cur := take BLOCK_SIZE b\<rparr>)
          (drop BLOCK_SIZE b) (locs @ [((wname w, Suc (length (closed_files w))), 0)]) \<Longrightarrow>
        P w b locs"
  shows "P w b locs"
  using inv
proof (induction b arbitrary: w locs rule: length_induct)
  case (1 b w locs)
  note IH = "1.IH" [rule_format]
  show ?case
  proof (cases "b = []")
    case True
    then show ?thesis using empty "1.prems" by simp
  next
    case False
    show ?thesis
    proof (cases "length (cur w) = BLOCK_SIZE")
      case True
      have "length (drop BLOCK_SIZE b) < length b"
        using False BLOCK_SIZE_pos by simp
      then have "P (w\<lparr>closed_files := closed_files w @ [cur w], cur := take BLOCK_SIZE b\<rparr>)
          (drop BLOCK_SIZE b) (locs @ [((wname w, Suc (length (closed_files w))), 0)])"
        by (rule IH) simp
      then show ?thesis by (rule full [OF False True])
    next
      case f: False
      then have lt: "length (cur w) < BLOCK_SIZE" using "1.prems" by simp
      then have "length (drop (BLOCK_SIZE - length (cur w)) b) < length b"
        using False by (cases b) auto
      then have "P (w\<lparr>cur := cur w @ take (BLOCK_SIZE - length (cur w)) b\<rparr>)
          (drop (BLOCK_SIZE - length (cur w)) b) (locs @ [(cur_name w, length (cur w))])"
        by (rule IH) (use lt in simp)
      then show ?thesis by (rule room [OF False lt])
    qed
  qed
qed

lemma write_loop_total:
  assumes "length (cur w) \<le> BLOCK_SIZE"
  shows "\<exists>w' new. write_loop w b locs = Some (w', locs @ new) \<and> wname w' = wname w
           \<and> length (cur w') \<le> BLOCK_SIZE"
  using assms
proof (induction w b locs rule: write_loop_cases)
  case (empty w locs)
  then show ?case by (simp add: write_loop_empty)
next
  case (room w b locs)
  then obtain w' new where
    "write_loop (w\<lparr>cur := cur w @ take (BLOCK_SIZE - length (cur w)) b\<rparr>)
       (drop (BLOCK_SIZE - length (cur w)) b) (locs @ [(cur_name w, length (cur w))])
     = Some (w', (locs @ [(cur_name w, length (cur w))]) @ new)"
    "wname w' = wname w" "length (cur w') \<le> BLOCK_SIZE"
    by auto
  then show ?case
    by (simp only: write_loop_room [OF room(1,2)]) simp
next
  case (full w b locs)
  then obtain w' new where
    "write_loop (w\<lparr>closed_files := closed_files w @ [cur w], cur := take BLOCK_SIZE b\<rparr>)
          (drop BLOCK_SIZE b) (locs @ [((wname w, Suc (length (closed_files w))), 0)])
     = Some (w', (locs @ [((wname w, Suc (length (closed_files w))), 0)]) @ new)"
    "wname w' = wname w" "length (cur w') \<le> BLOCK_SIZE"
    by auto
  then show ?case
    by (simp only: write_loop_full [OF full(1,2)]) simp
qed

lemma writer_state_induct [consumes 1, case_names empty room full]:
  fixes w :: writer
  assumes inv: "length (cur w) \<le> BLOCK_SIZE"
    and empty: "\<And>w. length (cur w) \<le> BLOCK_SIZE \<Longrightarrow> P w []"
    and room: "\<And>w b. b \<noteq> [] \<Longrightarrow> length (cur w) < BLOCK_SIZE \<Longrightarrow>
        P (w\<lparr>cur := cur w @ take (BLOCK_SIZE - length (cur w)) b\<rparr>)
          (drop (BLOCK_SIZE - length (cur w)) b) \<Longrightarrow> P w b"
    and full: "\<And>w b. b \<noteq> [] \<Longrightarrow> length (cur w) = BLOCK_SIZE \<Longrightarrow>
        P (w\<lparr>closed_files := closed_files w @ [cur w], cur := take BLOCK_SIZE b\<rparr>)
          (drop BLOCK_SIZE b) \<Longrightarrow> P w b"
  shows "P w b"
proof (rule write_loop_cases [where P = "\<lambda>w b locs. P w b" and locs = "[]", OF inv])
  show "\<And>w locs. length (cur w) \<le> BLOCK_SIZE \<Longrightarrow> P w []" by (rule empty)
  show "\<And>w b locs. b \<noteq> [] \<Longrightarrow> length (cur w) < BLOCK_SIZE \<Longrightarrow>
        P (w\<lparr>cur := cur w @ take (BLOCK_SIZE - length (cur w)) b\<rparr>)
          (drop (BLOCK_SIZE - length (cur w)) b) \<Longrightarrow> P w b" by (rule room)
  show "\<And>w b locs. b \<noteq> [] \<Longrightarrow> length (cur w) = BLOCK_SIZE \<Longrightarrow>
        P (w\<lparr>closed_files := closed_files w @ [cur w], cur := take BLOCK_SIZE b\<rparr>)
          (drop BLOCK_SIZE b) \<Longrightarrow> P w b" by (rule full)
qed

lemma write_loop_acc:
  assumes "length (cur w) \<le> BLOCK_SIZE"
  shows "write_loop w b locs = map_option (\<lambda>(w', new). (w', locs @ new)) (write_loop w b [])"
proof -
  have "\<forall>locs. write_loop w b locs =
          map_option (\<lambda>(w', new). (w', locs @ new)) (write_loop w b [])"
    using assms
  proof (induction w b rule: writer_state_induct)
    case (empty w)
    then show ?case by (simp add: write_loop_empty)
  next
    case (room w b)
    let ?w2 = "w\<lparr>cur := cur w @ take (BLOCK_SIZE - length (cur w)) b\<rparr>"
    let ?b2 = "drop (BLOCK_SIZE - length (cur w)) b"
    let ?l = "(cur_name w, length (cur w))"
    note IH = room(3) [rule_format]
    show ?case
    proof
      fix locs
      have 1: "write_loop w b locs =
          map_option (\<lambda>(w', new). (w', (locs @ [?l]) @ new)) (write_loop ?w2 ?b2 [])"
        unfolding write_loop_room [OF room(1,2)] by (rule IH)
      have 2: "write_loop w b [] =
          map_option (\<lambda>(w', new). (w', ([] @ [?l]) @ new)) (write_loop ?w2 ?b2 [])"
        unfolding write_loop_room [OF room(1,2)] by (rule IH)
      show "write_loop w b locs = map_option (\<lambda>(w', new). (w', locs @ new)) (write_loop w b [])"
        unfolding 1 2 by (cases "write_loop ?w2 ?b2 []") auto
    qed
  next
    case (full w b)
    let ?w2 = "w\<lparr>closed_files := closed_files w @ [cur w], cur := take BLOCK_SIZE b\<rparr>"
    let ?b2 = "drop BLOCK_SIZE b"
    let ?l = "((wname w, Suc (length (closed_files w))), 0::nat)"
    note IH = full(3) [rule_format]
    show ?case
    proof
      fix locs
      have 1: "write_loop w b locs =
          map_option (\<lambda>(w', new). (w', (locs @ [?l]) @ new)) (write_loop ?w2 ?b2 [])"
        unfolding write_loop_full [OF full(1,2)] by (rule IH)
      have 2: "write_loop w b [] =
          map_option (\<lambda>(w', new). (w', ([] @ [?l]) @ new)) (write_loop ?w2 ?b2 [])"
        unfolding write_loop_full [OF full(1,2)] by (rule IH)
      show "write_loop w b locs = map_option (\<lambda>(w', new). (w', locs @ new)) (write_loop w b [])"
        unfolding 1 2 by (cases "write_loop ?w2 ?b2 []") auto
    qed
  qed
  then show ?thesis by blast
qed

lemma writer_write_empty: "writer_write w [] = Some (w, [])"
  by (simp add: writer_write_def write_loop_empty)

lemma writer_write_room:
  assumes "b \<noteq> []" "length (cur w) < BLOCK_SIZE"
  shows "writer_write w b =
     map_option (\<lambda>(w', new). (w', (cur_name w, length (cur w)) # new))
       (writer_write (w\<lparr>cur := cur w @ take (BLOCK_SIZE - length (cur w)) b\<rparr>)
          (drop (BLOCK_SIZE - length (cur w)) b))"
proof -
  let ?w2 = "w\<lparr>cur := cur w @ take (BLOCK_SIZE - length (cur w)) b\<rparr>"
  let ?l = "(cur_name w, length (cur w))"
  have "length (cur ?w2) \<le> BLOCK_SIZE"
    using assms(2) by simp
  then have "write_loop ?w2 (drop (BLOCK_SIZE - length (cur w)) b) [?l] =
      map_option (\<lambda>(w', new). (w', [?l] @ new))
        (write_loop ?w2 (drop (BLOCK_SIZE - length (cur w)) b) [])"
    by (rule write_loop_acc)
  then show ?thesis
    unfolding writer_write_def write_loop_room [OF assms] by simp
qed

lemma writer_write_full:
  assumes "b \<noteq> []" "length (cur w) = BLOCK_SIZE"
  shows "writer_write w b =
     map_option (\<lambda>(w', new). (w', ((wname w, Suc (length (closed_files w))), 0) # new))
       (writer_write (w\<lparr>closed_files := closed_files w @ [cur w], cur := take BLOCK_SIZE b\<rparr>)
          (drop BLOCK_SIZE b))"
proof -
  let ?w2 = "w\<lparr>closed_files := closed_files w @ [cur w], cur := take BLOCK_SIZE b\<rparr>"
  let ?l = "((wname w, Suc (length (closed_files w))), 0::nat)"
  have "length (cur ?w2) \<le> BLOCK_SIZE"
    by simp
  then have "write_loop ?w2 (drop BLOCK_SIZE b) [?l] =
      map_option (\<lambda>(w', new). (w', [?l] @ new)) (write_loop ?w2 (drop BLOCK_SIZE b) [])"
    by (rule write_loop_acc)
  then show ?thesis
    unfolding writer_write_def write_loop_full [OF assms] by simp
qed

lemma writer_write_total:
  assumes "length (cur w) \<le> BLOCK_SIZE"
  shows "\<exists>w' locs. writer_write w b = Some (w', locs) \<and> wname w' = wname w
           \<and> length (cur w') \<le> BLOCK_SIZE"
  using write_loop_total [OF assms, of b "[]"] by (auto simp: writer_write_def)

lemma writer_write_roomE:
  assumes "b \<noteq> []" "length (cur w) < BLOCK_SIZE" "writer_write w b = Some (w', locs)"
  obtains new where
    "writer_write (w\<lparr>cur := cur w @ take (BLOCK_SIZE - length (cur w)) b\<rparr>)
       (drop (BLOCK_SIZE - length (cur w)) b) = Some (w', new)"
    "locs = (cur_name w, length (cur w)) # new"
  using assms(3) unfolding writer_write_room [OF assms(1,2)] by auto

lemma writer_write_fullE:
  assumes "b \<noteq> []" "length (cur w) = BLOCK_SIZE" "writer_write w b = Some (w', locs)"
  obtains new where
    "writer_write (w\<lparr>closed_files := closed_files w @ [cur w], cur := take BLOCK_SIZE b\<rparr>)
       (drop BLOCK_SIZE b) = Some (w', new)"
    "locs = ((wname w, Suc (length (closed_files w))), 0) # new"
  using assms(3) unfolding writer_write_full [OF assms(1,2)] by auto

lemma files_ext_iff:
  "files_ext fs fs' \<longleftrightarrow> length fs \<le> length fs' \<and> (\<forall>i<length fs. prefix (fs ! i) (fs' ! i))"
  by (auto simp: files_ext_def list_all2_conv_all_nth)

lemma files_ext_refl: "files_ext fs fs"
  by (simp add: files_ext_iff)

lemma files_ext_trans: "files_ext a b \<Longrightarrow> files_ext b c \<Longrightarrow> files_ext a c"
  unfolding files_ext_iff by (meson le_trans less_le_trans prefix_order.trans)

lemma files_ext_grow: "files_ext (fs @ [c]) (fs @ [c @ x])"
  by (auto simp: files_ext_iff nth_append)

lemma files_ext_new: "files_ext fs (fs @ gs)"
  by (auto simp: files_ext_iff nth_append)

lemma dir_holds_iff:
  "dir_holds d name fs \<longleftrightarrow> (\<forall>i<length fs. \<exists>c. d (name, i) = Some c \<and> prefix (fs ! i) c)"
proof -
  have "(case d (name, i) of None \<Rightarrow> False | Some c \<Rightarrow> prefix (fs ! i) c)
          = (\<exists>c. d (name, i) = Some c \<and> prefix (fs ! i) c)" for i
    by (cases "d (name, i)") auto
  then show ?thesis
    by (auto simp: dir_holds_def list_all_iff)
qed

lemma dir_holds_ext: "files_ext fs fs' \<Longrightarrow> dir_holds d name fs' \<Longrightarrow> dir_holds d name fs"
  unfolding files_ext_iff dir_holds_iff
  by (meson less_le_trans prefix_order.trans)

lemma dir_holds_install: "dir_holds (install name fs d) name fs"
  by (simp add: dir_holds_iff install_def)

lemma writer_write_ext:
  assumes "length (cur w) \<le> BLOCK_SIZE" "writer_write w b = Some (w', locs)"
  shows "files_ext (writer_close w) (writer_close w')"
  using assms
proof (induction w b arbitrary: w' locs rule: writer_state_induct)
  case (empty w)
  then show ?case by (simp add: writer_write_empty files_ext_refl)
next
  case (room w b)
  let ?w2 = "w\<lparr>cur := cur w @ take (BLOCK_SIZE - length (cur w)) b\<rparr>"
  from room.prems obtain new where
    n: "writer_write ?w2 (drop (BLOCK_SIZE - length (cur w)) b) = Some (w', new)"
    by (rule writer_write_roomE [OF room.hyps(1,2)])
  have "files_ext (writer_close ?w2) (writer_close w')" by (rule room.IH [OF n])
  moreover have "files_ext (writer_close w) (writer_close ?w2)"
    by (simp add: writer_close_def files_ext_grow)
  ultimately show ?case by (rule files_ext_trans [rotated])
next
  case (full w b)
  let ?w2 = "w\<lparr>closed_files := closed_files w @ [cur w], cur := take BLOCK_SIZE b\<rparr>"
  from full.prems obtain new where
    n: "writer_write ?w2 (drop BLOCK_SIZE b) = Some (w', new)"
    by (rule writer_write_fullE [OF full.hyps(1,2)])
  have "files_ext (writer_close ?w2) (writer_close w')" by (rule full.IH [OF n])
  moreover have "files_ext (writer_close w) (writer_close ?w2)"
    using files_ext_new [of "closed_files w @ [cur w]" "[take BLOCK_SIZE b]"]
    by (simp add: writer_close_def)
  ultimately show ?case by (rule files_ext_trans [rotated])
qed

end
